theory Spec2Isabelle
  imports Complex_Main "HOL-Library.Char_ord" "HOL-Library.List_Lexorder"
begin

section \<open>Log analyzer: parsing, issue detection, issue store, file tailing\<close>

text \<open>
  A shallow embedding of \<^verbatim>\<open>scripts/log_analyzer.py\<close>.

  Conventions of the model.
  \<^item> A Python \<^verbatim>\<open>str\<close> is a \<^typ>\<open>string\<close>; one \<^typ>\<open>char\<close> stands for one code point
    below 256, and the character classes below are the ones Python 3 assigns to these code
    points (\<^verbatim>\<open>str.isspace\<close>, and \<^verbatim>\<open>\s\<close>, \<^verbatim>\<open>\d\<close>, \<^verbatim>\<open>\w\<close>, \<^verbatim>\<open>.\<close> of the module
    \<^verbatim>\<open>re\<close> on \<^verbatim>\<open>str\<close> patterns without flags).
  \<^item> Python integers are unbounded; the non-negative ones that occur are \<^typ>\<open>nat\<close>.
    \<^verbatim>\<open>int(s)\<close> raises \<^verbatim>\<open>ValueError\<close> on more than 4300 digits, the limit that the
    interpreter sets by default.
  \<^item> An exception that the program does not catch is a value \<open>Inl e\<close> of the result.
  \<^item> A file is a sequence of bytes and is read under UTF-8, the encoding under which the
    program can print its messages; an offset into a file counts bytes.
  \<^item> The float expressions of \<^verbatim>\<open>detect_issues\<close> (a quotient of two counts, times 100) are
    modelled by exact rational arithmetic.
  \<^item> The database is a value that is passed in and returned; \<^verbatim>\<open>NOW()\<close> is a parameter.
\<close>

subsection \<open>Exceptions\<close>

datatype error =
  ValueError
  | UnicodeDecodeError
  | AboveLatin1
    \<comment> \<open>not an exception of the program: the mark of a text with a code point above 255,
       for which this model has no string\<close>

subsection \<open>Characters and strings\<close>

definition isspace :: "char \<Rightarrow> bool" where
  \<comment> \<open>\<^verbatim>\<open>str.isspace\<close>, which is also what \<^verbatim>\<open>\s\<close> and \<^verbatim>\<open>str.strip()\<close> test\<close>
  "isspace c = (of_char c \<in> set [9, 10, 11, 12, 13, 28, 29, 30, 31, 32, 133, 160 :: nat])"

definition isdigit :: "char \<Rightarrow> bool" where
  \<comment> \<open>\<^verbatim>\<open>\d\<close>: the decimal digits\<close>
  "isdigit c = (48 \<le> (of_char c :: nat) \<and> (of_char c :: nat) \<le> 57)"

definition isword :: "char \<Rightarrow> bool" where
  \<comment> \<open>\<^verbatim>\<open>\w\<close>: alphanumeric characters and the underscore\<close>
  "isword c = (let n = (of_char c :: nat) in
     (48 \<le> n \<and> n \<le> 57) \<or> (65 \<le> n \<and> n \<le> 90) \<or> n = 95 \<or> (97 \<le> n \<and> n \<le> 122) \<or>
     n \<in> set [170, 178, 179, 181, 185, 186, 188, 189, 190] \<or>
     (192 \<le> n \<and> n \<le> 214) \<or> (216 \<le> n \<and> n \<le> 246) \<or> (248 \<le> n \<and> n \<le> 255))"

definition notnewline :: "char \<Rightarrow> bool" where
  \<comment> \<open>\<^verbatim>\<open>.\<close> without the DOTALL flag: anything but the line feed\<close>
  "notnewline c = (c \<noteq> CHR 0x0A)"

definition notbracket :: "char \<Rightarrow> bool" where
  \<comment> \<open>the class \<^verbatim>\<open>[^\]]\<close>\<close>
  "notbracket c = (c \<noteq> CHR '']'')"

definition lower_char :: "char \<Rightarrow> char" where
  "lower_char c = (let n = (of_char c :: nat) in
     if (65 \<le> n \<and> n \<le> 90) \<or> (192 \<le> n \<and> n \<le> 214) \<or> (216 \<le> n \<and> n \<le> 222)
     then char_of (n + 32) else c)"

definition lower :: "string \<Rightarrow> string" where
  \<comment> \<open>\<^verbatim>\<open>str.lower()\<close>\<close>
  "lower s = map lower_char s"

definition strip :: "string \<Rightarrow> string" where
  \<comment> \<open>\<^verbatim>\<open>str.strip()\<close>: leading and trailing whitespace removed\<close>
  "strip s = rev (dropWhile isspace (rev (dropWhile isspace s)))"

fun startswith :: "string \<Rightarrow> string \<Rightarrow> bool" where
  "startswith s [] = True"
| "startswith [] (p # ps) = False"
| "startswith (c # cs) (p # ps) = (c = p \<and> startswith cs ps)"

definition endswith :: "string \<Rightarrow> string \<Rightarrow> bool" where
  "endswith s p = startswith (rev s) (rev p)"

fun contains :: "string \<Rightarrow> string \<Rightarrow> bool" where
  \<comment> \<open>\<^verbatim>\<open>sub in s\<close>\<close>
  "contains [] sub = (sub = [])"
| "contains (c # cs) sub = (startswith (c # cs) sub \<or> contains cs sub)"

definition digit_value :: "char \<Rightarrow> nat" where
  "digit_value c = of_char c - 48"

definition int_of_digits :: "string \<Rightarrow> nat" where
  \<comment> \<open>the number that a string of decimal digits denotes\<close>
  "int_of_digits s = foldl (\<lambda>a c. 10 * a + digit_value c) 0 s"

definition int_max_str_digits :: nat where
  \<comment> \<open>\<^verbatim>\<open>sys.int_info.default_max_str_digits\<close>\<close>
  "int_max_str_digits = 4300"

definition int_str :: "string \<Rightarrow> error + nat" where
  \<comment> \<open>\<^verbatim>\<open>int(s)\<close> on a non-empty string of decimal digits\<close>
  "int_str s = (if int_max_str_digits < length s then Inl ValueError else Inr (int_of_digits s))"

definition int_group :: "string option \<Rightarrow> error + nat option" where
  \<comment> \<open>\<^verbatim>\<open>int(m.group(1)) if m else None\<close>, for the group of a search\<close>
  "int_group g =
     (case g of
        None \<Rightarrow> Inr None
      | Some ds \<Rightarrow> (case int_str ds of Inl e \<Rightarrow> Inl e | Inr n \<Rightarrow> Inr (Some n)))"

subsection \<open>Regular expressions of the parser\<close>

text \<open>
  Each piece of a pattern is a function from the text still to be matched to the text it
  consumes and the rest, or \<open>None\<close> where it does not match. Every repetition in the
  patterns of this program is greedy and is followed by a piece that cannot start with a
  character of the repeated class, so the longest repetition is the only one that can lead
  to a match; \<open>LOG_PATTERN_match_iff\<close> below proves this for \<^verbatim>\<open>LOG_PATTERN\<close> against the
  set of all texts that the pattern admits.
\<close>

definition rx_lit :: "char \<Rightarrow> string \<Rightarrow> (string \<times> string) option" where
  "rx_lit a s = (case s of [] \<Rightarrow> None | c # cs \<Rightarrow> if c = a then Some ([c], cs) else None)"

definition rx_count :: "(char \<Rightarrow> bool) \<Rightarrow> nat \<Rightarrow> string \<Rightarrow> (string \<times> string) option" where
  \<comment> \<open>\<^verbatim>\<open>C{n}\<close>\<close>
  "rx_count P n s =
     (if n \<le> length s \<and> list_all P (take n s) then Some (take n s, drop n s) else None)"

definition rx_plus :: "(char \<Rightarrow> bool) \<Rightarrow> string \<Rightarrow> (string \<times> string) option" where
  \<comment> \<open>\<^verbatim>\<open>C+\<close>, greedy\<close>
  "rx_plus P s = (if takeWhile P s = [] then None else Some (takeWhile P s, dropWhile P s))"

definition rx_star :: "(char \<Rightarrow> bool) \<Rightarrow> string \<Rightarrow> (string \<times> string) option" where
  \<comment> \<open>\<^verbatim>\<open>C*\<close>, greedy\<close>
  "rx_star P s = Some (takeWhile P s, dropWhile P s)"

definition rx_seq ::
  "(string \<Rightarrow> (string \<times> string) option) \<Rightarrow> (string \<Rightarrow> (string \<times> string) option) \<Rightarrow>
   string \<Rightarrow> (string \<times> string) option" where
  \<comment> \<open>concatenation of two pieces\<close>
  "rx_seq p q s =
     (case p s of None \<Rightarrow> None
      | Some (a, r) \<Rightarrow> (case q r of None \<Rightarrow> None | Some (b, r') \<Rightarrow> Some (a @ b, r')))"

definition rx_timestamp :: "string \<Rightarrow> (string \<times> string) option" where
  \<comment> \<open>\<^verbatim>\<open>\d{4}-\d{2}-\d{2} \d{2}:\d{2}:\d{2}\<close>\<close>
  "rx_timestamp =
     rx_seq (rx_count isdigit 4) (rx_seq (rx_lit (CHR ''-'')) (rx_seq (rx_count isdigit 2)
    (rx_seq (rx_lit (CHR ''-'')) (rx_seq (rx_count isdigit 2) (rx_seq (rx_lit (CHR '' ''))
    (rx_seq (rx_count isdigit 2) (rx_seq (rx_lit (CHR '':'')) (rx_seq (rx_count isdigit 2)
    (rx_seq (rx_lit (CHR '':'')) (rx_count isdigit 2))))))))))"

record log_match =
  g_timestamp :: string
  g_level :: string
  g_component :: string
  g_message :: string

definition LOG_PATTERN_match :: "string \<Rightarrow> log_match option" where
  \<comment> \<open>\<^verbatim>\<open>LOG_PATTERN.match(s)\<close>: the pattern anchored at the start of \<open>s\<close>, with its four
     named groups\<close>
  "LOG_PATTERN_match s =
     (case rx_timestamp s of None \<Rightarrow> None | Some (ts, s1) \<Rightarrow>
      case rx_plus isspace s1 of None \<Rightarrow> None | Some (w1, s2) \<Rightarrow>
      case rx_plus isword s2 of None \<Rightarrow> None | Some (lv, s3) \<Rightarrow>
      case rx_plus isspace s3 of None \<Rightarrow> None | Some (w2, s4) \<Rightarrow>
      case rx_lit (CHR ''['') s4 of None \<Rightarrow> None | Some (b1, s5) \<Rightarrow>
      case rx_plus notbracket s5 of None \<Rightarrow> None | Some (co, s6) \<Rightarrow>
      case rx_lit (CHR '']'') s6 of None \<Rightarrow> None | Some (b2, s7) \<Rightarrow>
      case rx_plus isspace s7 of None \<Rightarrow> None | Some (w3, s8) \<Rightarrow>
      case rx_star notnewline s8 of None \<Rightarrow> None | Some (ms, s9) \<Rightarrow>
        Some \<lparr>g_timestamp = ts, g_level = lv, g_component = co, g_message = ms\<rparr>)"

definition TIME_PATTERN_at :: "string \<Rightarrow> string option" where
  \<comment> \<open>\<^verbatim>\<open>(\d+)ms\<close> at the start of \<open>s\<close>; the result is group 1\<close>
  "TIME_PATTERN_at s =
     (case rx_plus isdigit s of None \<Rightarrow> None
      | Some (ds, r) \<Rightarrow> if startswith r ''ms'' then Some ds else None)"

definition USER_ID_PATTERN_at :: "string \<Rightarrow> string option" where
  \<comment> \<open>\<^verbatim>\<open>user_id[=:](\d+)\<close> at the start of \<open>s\<close>; the result is group 1\<close>
  "USER_ID_PATTERN_at s =
     (if startswith s ''user_id'' then
        (case drop 7 s of [] \<Rightarrow> None
         | c # r \<Rightarrow> if c = CHR ''='' \<or> c = CHR '':''
                    then (case rx_plus isdigit r of None \<Rightarrow> None | Some (ds, r') \<Rightarrow> Some ds)
                    else None)
      else None)"

definition ERROR_CODE_PATTERN_at :: "string \<Rightarrow> string option" where
  \<comment> \<open>\<^verbatim>\<open>(404|500|503|\d{3})\<close> at the start of \<open>s\<close>, the alternatives in their order\<close>
  "ERROR_CODE_PATTERN_at s =
     (if startswith s ''404'' then Some ''404''
      else if startswith s ''500'' then Some ''500''
      else if startswith s ''503'' then Some ''503''
      else (case rx_count isdigit 3 s of None \<Rightarrow> None | Some (ds, r) \<Rightarrow> Some ds))"

fun search :: "(string \<Rightarrow> string option) \<Rightarrow> string \<Rightarrow> string option" where
  \<comment> \<open>\<^verbatim>\<open>pattern.search(s)\<close>: the match at the leftmost position that has one\<close>
  "search p [] = p []"
| "search p (c # cs) = (case p (c # cs) of Some g \<Rightarrow> Some g | None \<Rightarrow> search p cs)"

subsection \<open>parse\_log\_line\<close>

record log_entry =
  timestamp :: string
  level :: string
  component :: string
  message :: string
  response_time :: "nat option"
  user_id :: "nat option"
  error_code :: "string option"

definition parse_log_line :: "string \<Rightarrow> error + log_entry option" where
  \<comment> \<open>\<open>Inr None\<close> is the result \<^verbatim>\<open>None\<close>; the two conversions are made in the order of the
     source, so the first that raises decides\<close>
  "parse_log_line line =
     (case LOG_PATTERN_match (strip line) of
        None \<Rightarrow> Inr None
      | Some m \<Rightarrow>
          (case int_group (search TIME_PATTERN_at (g_message m)) of
             Inl e \<Rightarrow> Inl e
           | Inr time \<Rightarrow>
               (case int_group (search USER_ID_PATTERN_at (g_message m)) of
                  Inl e \<Rightarrow> Inl e
                | Inr user \<Rightarrow>
                    Inr (Some \<lparr>timestamp = g_timestamp m,
                               level = g_level m,
                               component = g_component m,
                               message = g_message m,
                               response_time = time,
                               user_id = user,
                               error_code = search ERROR_CODE_PATTERN_at (g_message m)\<rparr>))))"

subsection \<open>Issue observations and the issues table\<close>

datatype description =
  \<comment> \<open>the arguments of the four f-strings of \<^verbatim>\<open>detect_issues\<close>; the rendering to text is
     not modelled\<close>
    HighErrorRateText string rat nat nat
  | DatabaseTimeoutText nat
  | SlowResponseText nat rat
  | AuthFailuresText nat

record issue =
  issue_type :: string
  severity :: string
  description :: description
  component :: string
  occurrence_count :: nat

record issue_row = issue +
  issue_id :: nat
  first_seen :: nat
  last_seen :: nat
  resolved :: bool

record database =
  log_entries :: "log_entry list"
  issues :: "issue_row list"
  issues_id_seq :: nat

definition resolved_default :: bool where
  \<comment> \<open>Modelled from the spec: the schema of the table \<^verbatim>\<open>issues\<close> is not in the source; the
     column \<^verbatim>\<open>resolved\<close> is a boolean that defaults to false, and \<^verbatim>\<open>id\<close> is a key that the
     database generates (here the counter \<open>issues_id_seq\<close>).\<close>
  "resolved_default = False"

subsection \<open>detect\_issues\<close>

definition by_component_add ::
  "(string \<times> log_entry list) list \<Rightarrow> log_entry \<Rightarrow> (string \<times> log_entry list) list" where
  \<comment> \<open>one round of the grouping loop on the dict \<^verbatim>\<open>by_component\<close>, which keeps its keys in
     the order of their insertion\<close>
  "by_component_add bc entry =
     (let c = log_entry.component entry;
          bc1 = (if map_of bc c = None then bc @ [(c, [])] else bc)
      in map (\<lambda>(k, v). if k = c then (k, v @ [entry]) else (k, v)) bc1)"

definition by_component :: "log_entry list \<Rightarrow> (string \<times> log_entry list) list" where
  "by_component entries = foldl by_component_add [] entries"

definition errors :: "log_entry list \<Rightarrow> log_entry list" where
  "errors entries = filter (\<lambda>e. level e = ''ERROR'') entries"

definition is_slow :: "log_entry \<Rightarrow> bool" where
  \<comment> \<open>\<^verbatim>\<open>entry["response_time"] and entry["response_time"] > 3000\<close>\<close>
  "is_slow e = (case response_time e of None \<Rightarrow> False | Some t \<Rightarrow> t \<noteq> 0 \<and> t > 3000)"

definition slow_responses :: "log_entry list \<Rightarrow> log_entry list" where
  "slow_responses entries = filter is_slow entries"

definition error_rate :: "nat \<Rightarrow> nat \<Rightarrow> rat" where
  \<comment> \<open>\<^verbatim>\<open>(error_count / total_count * 100) if total_count > 0 else 0\<close>\<close>
  "error_rate error_count total_count =
     (if total_count > 0 then of_nat error_count / of_nat total_count * 100 else 0)"

definition high_error_rate_issue :: "string \<times> log_entry list \<Rightarrow> issue list" where
  \<comment> \<open>the body of the loop of ISSUE 1 for one item of \<^verbatim>\<open>by_component\<close>\<close>
  "high_error_rate_issue item =
     (case item of (cname, comp_entries) \<Rightarrow>
      let error_count = length (filter (\<lambda>e. level e = ''ERROR'') comp_entries);
          total_count = length comp_entries;
          rate = error_rate error_count total_count
      in if rate > 10
         then [\<lparr>issue_type = ''High Error Rate'',
                severity = (if rate > 20 then ''HIGH'' else ''MEDIUM''),
                description = HighErrorRateText cname rate error_count total_count,
                component = cname,
                occurrence_count = error_count\<rparr>]
         else [])"

definition db_timeouts :: "log_entry list \<Rightarrow> log_entry list" where
  "db_timeouts entries =
     filter (\<lambda>e. log_entry.component e = ''Database'' \<and> contains (lower (message e)) ''timeout'')
       (errors entries)"

definition db_timeout_issue :: "log_entry list \<Rightarrow> issue list" where
  "db_timeout_issue entries =
     (let n = length (db_timeouts entries)
      in if n > 0
         then [\<lparr>issue_type = ''Database Timeout'',
                severity = (if n > 5 then ''CRITICAL'' else ''HIGH''),
                description = DatabaseTimeoutText n,
                component = ''Database'',
                occurrence_count = n\<rparr>]
         else [])"

definition slow_response_issue :: "log_entry list \<Rightarrow> issue list" where
  "slow_response_issue entries =
     (let slow = slow_responses entries; n = length slow
      in if n > 0
         then [\<lparr>issue_type = ''Slow Response Time'',
                severity = ''MEDIUM'',
                description = SlowResponseText n
                  (of_nat (sum_list (map (\<lambda>e. the (response_time e)) slow)) / of_nat n),
                component = ''API'',
                occurrence_count = n\<rparr>]
         else [])"

definition auth_failures :: "log_entry list \<Rightarrow> log_entry list" where
  "auth_failures entries =
     filter (\<lambda>e. log_entry.component e = ''Auth'' \<and>
                 (contains (lower (message e)) ''failed'' \<or> contains (lower (message e)) ''invalid''))
       (errors entries)"

definition auth_failures_issue :: "log_entry list \<Rightarrow> issue list" where
  "auth_failures_issue entries =
     (let n = length (auth_failures entries)
      in if n > 5
         then [\<lparr>issue_type = ''Authentication Failures'',
                severity = ''HIGH'',
                description = AuthFailuresText n,
                component = ''Auth'',
                occurrence_count = n\<rparr>]
         else [])"

definition issues_to_insert :: "log_entry list \<Rightarrow> issue list" where
  \<comment> \<open>the list \<^verbatim>\<open>issues_to_insert\<close> when \<^verbatim>\<open>detect_issues\<close> hands it to \<^verbatim>\<open>insert_issues\<close>\<close>
  "issues_to_insert entries =
     concat (map high_error_rate_issue (by_component entries)) @
     db_timeout_issue entries @
     slow_response_issue entries @
     auth_failures_issue entries"

subsection \<open>insert\_issues\<close>

text \<open>
  The statements sent to the database are taken to succeed. \<open>now\<close> is the value of
  \<^verbatim>\<open>NOW()\<close>, which is the same in every statement of one transaction.
\<close>

definition is_open_match :: "issue \<Rightarrow> issue_row \<Rightarrow> bool" where
  \<comment> \<open>the WHERE clause of the SELECT\<close>
  "is_open_match obs r =
     (issue_type r = issue_type obs \<and> issue.component r = issue.component obs \<and> resolved r = False)"

definition most_recent :: "issue_row \<Rightarrow> issue_row list \<Rightarrow> issue_row" where
  \<comment> \<open>\<^verbatim>\<open>ORDER BY last_seen DESC LIMIT 1\<close> on a non-empty result; among rows with the same
     \<^verbatim>\<open>last_seen\<close> the model takes the first in table order\<close>
  "most_recent r rs = foldl (\<lambda>best x. if last_seen x > last_seen best then x else best) r rs"

definition select_existing :: "database \<Rightarrow> issue \<Rightarrow> issue_row option" where
  "select_existing db obs =
     (case filter (is_open_match obs) (issues db) of
        [] \<Rightarrow> None
      | r # rs \<Rightarrow> Some (most_recent r rs))"

definition update_issue :: "nat \<Rightarrow> nat \<Rightarrow> issue \<Rightarrow> nat \<Rightarrow> issue_row \<Rightarrow> issue_row" where
  \<comment> \<open>the UPDATE statement on one row of the table\<close>
  "update_issue now new_count obs ident r =
     (if issue_id r = ident
      then r\<lparr>last_seen := now, occurrence_count := new_count,
             severity := severity obs, description := description obs\<rparr>
      else r)"

definition new_issue_row :: "nat \<Rightarrow> nat \<Rightarrow> issue \<Rightarrow> issue_row" where
  \<comment> \<open>the row that the INSERT statement adds\<close>
  "new_issue_row now ident obs =
     \<lparr>issue_type = issue_type obs, severity = severity obs, description = description obs,
      component = issue.component obs, occurrence_count = occurrence_count obs,
      issue_id = ident, first_seen = now, last_seen = now, resolved = resolved_default\<rparr>"

definition reconcile :: "nat \<Rightarrow> database \<Rightarrow> issue \<Rightarrow> database" where
  \<comment> \<open>the body of the loop of \<^verbatim>\<open>insert_issues\<close> for one issue\<close>
  "reconcile now db obs =
     (case select_existing db obs of
        Some existing \<Rightarrow>
          let new_count = occurrence_count existing + occurrence_count obs
          in db\<lparr>issues := map (update_issue now new_count obs (issue_id existing)) (issues db)\<rparr>
      | None \<Rightarrow>
          db\<lparr>issues := issues db @ [new_issue_row now (issues_id_seq db) obs],
             issues_id_seq := Suc (issues_id_seq db)\<rparr>)"

definition insert_issues :: "nat \<Rightarrow> database \<Rightarrow> issue list \<Rightarrow> database" where
  "insert_issues now db iss = (if iss = [] then db else foldl (reconcile now) db iss)"

definition insert_log_entries :: "database \<Rightarrow> log_entry list \<Rightarrow> database" where
  "insert_log_entries db entries =
     (if entries = [] then db else db\<lparr>log_entries := log_entries db @ entries\<rparr>)"

definition detect_issues :: "nat \<Rightarrow> database \<Rightarrow> log_entry list \<Rightarrow> database" where
  "detect_issues now db entries = insert_issues now db (issues_to_insert entries)"

subsection \<open>File monitoring\<close>

text \<open>
  A file system maps a path to the bytes of the file there; a byte is written as the
  \<^typ>\<open>char\<close> with its value. \<^verbatim>\<open>open(filepath, "r")\<close> reads text: the bytes from the offset on
  are decoded as UTF-8, and the decoder raises \<^verbatim>\<open>UnicodeDecodeError\<close> at a byte sequence that
  is not the encoding of a code point, also at one that the end of the file cuts short.
  Text mode reads with universal newlines: a carriage return, alone or before a line feed,
  ends a line and is read as a line feed.
\<close>

type_synonym byte = char

type_synonym filesystem = "string \<rightharpoonup> byte list"

definition is_continuation :: "byte \<Rightarrow> bool" where
  "is_continuation b = (0x80 \<le> (of_char b :: nat) \<and> (of_char b :: nat) \<le> 0xBF)"

definition lead_byte :: "nat \<Rightarrow> (nat \<times> nat \<times> nat \<times> nat) option" where
  \<comment> \<open>for the first byte of a sequence: the number of bytes that follow it, the bits that
     it gives to the code point, and the least and greatest value of the byte after it\<close>
  "lead_byte n =
     (if n < 0x80 then Some (0, n, 0x80, 0xBF)
      else if 0xC2 \<le> n \<and> n \<le> 0xDF then Some (1, n - 0xC0, 0x80, 0xBF)
      else if n = 0xE0 then Some (2, 0, 0xA0, 0xBF)
      else if 0xE1 \<le> n \<and> n \<le> 0xEC then Some (2, n - 0xE0, 0x80, 0xBF)
      else if n = 0xED then Some (2, 0xD, 0x80, 0x9F)
      else if 0xEE \<le> n \<and> n \<le> 0xEF then Some (2, n - 0xE0, 0x80, 0xBF)
      else if n = 0xF0 then Some (3, 0, 0x90, 0xBF)
      else if 0xF1 \<le> n \<and> n \<le> 0xF3 then Some (3, n - 0xF0, 0x80, 0xBF)
      else if n = 0xF4 then Some (3, 4, 0x80, 0x8F)
      else None)"

fun utf_8_decode :: "byte list \<Rightarrow> nat list option" where
  \<comment> \<open>the code points that a sequence of bytes encodes; \<open>None\<close> where the codec raises\<close>
  "utf_8_decode [] = Some []"
| "utf_8_decode (b # bs) =
     (case lead_byte (of_char b) of
        None \<Rightarrow> None
      | Some (k, bits, lo, hi) \<Rightarrow>
          if k \<le> length bs \<and> list_all is_continuation (take k bs) \<and>
             (k = 0 \<or> (lo \<le> (of_char (hd bs) :: nat) \<and> (of_char (hd bs) :: nat) \<le> hi))
          then map_option
                 (Cons (foldl (\<lambda>a c. 64 * a + ((of_char c :: nat) - 0x80)) bits (take k bs)))
                 (utf_8_decode (drop k bs))
          else None)"

definition decode :: "byte list \<Rightarrow> error + string" where
  \<comment> \<open>the text of a sequence of bytes\<close>
  "decode bs =
     (case utf_8_decode bs of
        None \<Rightarrow> Inl UnicodeDecodeError
      | Some points \<Rightarrow>
          if list_all (\<lambda>n. n < 256) points then Inr (map char_of points) else Inl AboveLatin1)"

fun readlines_from :: "string \<Rightarrow> string \<Rightarrow> string list" where
  \<comment> \<open>\<^verbatim>\<open>f.readlines()\<close>; the first argument is the line read so far\<close>
  "readlines_from acc [] = (if acc = [] then [] else [acc])"
| "readlines_from acc [c] =
     (if c = CHR 0x0A \<or> c = CHR 0x0D then [acc @ [CHR 0x0A]] else [acc @ [c]])"
| "readlines_from acc (c # d # cs) =
     (if c = CHR 0x0A then (acc @ [CHR 0x0A]) # readlines_from [] (d # cs)
      else if c = CHR 0x0D then
        (if d = CHR 0x0A then (acc @ [CHR 0x0A]) # readlines_from [] cs
         else (acc @ [CHR 0x0A]) # readlines_from [] (d # cs))
      else readlines_from (acc @ [c]) (d # cs))"

definition readlines :: "string \<Rightarrow> string list" where
  "readlines s = readlines_from [] s"

definition tail_file :: "filesystem \<Rightarrow> string \<Rightarrow> nat \<Rightarrow> error + (string list \<times> nat)" where
  \<comment> \<open>\<^verbatim>\<open>f.seek(last_position)\<close>, \<^verbatim>\<open>f.readlines()\<close>, which reads to the end of the file, and
     \<^verbatim>\<open>f.tell()\<close>; no file at the path is \<^verbatim>\<open>FileNotFoundError\<close>, which is caught\<close>
  "tail_file fs filepath last_position =
     (case fs filepath of
        None \<Rightarrow> Inr ([], last_position)
      | Some content \<Rightarrow>
          (case decode (drop last_position content) of
             Inl e \<Rightarrow> Inl e
           | Inr text \<Rightarrow> Inr (readlines text, max last_position (length content))))"

record config =
  log_directory :: string
  log_file_prefix :: string

record environment =
  listing :: "string list option"
  files :: filesystem
  clock :: nat

definition path_join :: "string \<Rightarrow> string \<Rightarrow> string" where
  \<comment> \<open>\<^verbatim>\<open>os.path.join\<close> on a directory and a file name that has no separator\<close>
  "path_join d f = (if d = [] \<or> last d = CHR ''/'' then d @ f else d @ ''/'' @ f)"

definition get_latest_log_file :: "config \<Rightarrow> environment \<Rightarrow> string option" where
  "get_latest_log_file cfg env =
     (case listing env of
        None \<Rightarrow> None
      | Some names \<Rightarrow>
          (case rev (sort (filter (\<lambda>f. startswith f (log_file_prefix cfg) \<and> endswith f ''.log'') names)) of
             [] \<Rightarrow> None
           | f # fs \<Rightarrow> Some (path_join (log_directory cfg) f)))"

subsection \<open>The main loop\<close>

record loop_state =
  conn :: database
  last_position :: nat
  current_file :: "string option"

definition track :: "string \<Rightarrow> loop_state \<Rightarrow> loop_state" where
  \<comment> \<open>\<^verbatim>\<open>if log_file != current_file: current_file = log_file; last_position = 0\<close>\<close>
  "track log_file st =
     (if Some log_file \<noteq> current_file st
      then st\<lparr>current_file := Some log_file, last_position := 0\<rparr>
      else st)"

fun parse_all :: "string list \<Rightarrow> error + log_entry list" where
  \<comment> \<open>the loop that collects the lines that parse; it ends at the first line on which
     \<^verbatim>\<open>parse_log_line\<close> raises\<close>
  "parse_all [] = Inr []"
| "parse_all (line # new_lines) =
     (case parse_log_line line of
        Inl e \<Rightarrow> Inl e
      | Inr parsed \<Rightarrow>
          (case parse_all new_lines of
             Inl e \<Rightarrow> Inl e
           | Inr parsed_entries \<Rightarrow>
               Inr (case parsed of None \<Rightarrow> parsed_entries | Some p \<Rightarrow> p # parsed_entries)))"

definition process :: "nat \<Rightarrow> database \<Rightarrow> string list \<Rightarrow> error + database" where
  \<comment> \<open>\<^verbatim>\<open>if new_lines: ...\<close>\<close>
  "process now db new_lines =
     (if new_lines = [] then Inr db
      else (case parse_all new_lines of
              Inl e \<Rightarrow> Inl e
            | Inr parsed_entries \<Rightarrow>
                if parsed_entries = [] then Inr db
                else Inr (detect_issues now (insert_log_entries db parsed_entries)
                            parsed_entries)))"

definition cycle ::
  "config \<Rightarrow> environment \<Rightarrow> loop_state \<Rightarrow> (error + loop_state) \<times> (string \<times> nat) option" where
  \<comment> \<open>one round of \<^verbatim>\<open>while True\<close>: the state after it, or the exception that ends the loop,
     and the call of \<^verbatim>\<open>tail_file\<close> that the round makes, as (path, offset), or \<open>None\<close> when
     it makes none\<close>
  "cycle cfg env st =
     (case get_latest_log_file cfg env of
        None \<Rightarrow> (Inr st, None)
      | Some log_file \<Rightarrow>
          if log_file = [] then (Inr st, None)
          else
            let st1 = track log_file st
            in (case tail_file (files env) log_file (last_position st1) of
                  Inl e \<Rightarrow> Inl e
                | Inr (new_lines, pos) \<Rightarrow>
                    (case process (clock env) (conn st1) new_lines of
                       Inl e \<Rightarrow> Inl e
                     | Inr db \<Rightarrow> Inr (st1\<lparr>last_position := pos, conn := db\<rparr>)),
                Some (log_file, last_position st1)))"

fun run ::
  "config \<Rightarrow> environment list \<Rightarrow> loop_state \<Rightarrow> (loop_state \<times> (string \<times> nat) option) list" where
  \<comment> \<open>the rounds of the loop over the successive states of its environment, up to the
     round that raises: for each round the state before it and the read it makes\<close>
  "run cfg [] st = []"
| "run cfg (env # envs) st =
     (st, snd (cycle cfg env st)) #
     (case fst (cycle cfg env st) of Inl e \<Rightarrow> [] | Inr st' \<Rightarrow> run cfg envs st')"

definition initial_state :: "database \<Rightarrow> loop_state" where
  "initial_state db = \<lparr>conn = db, last_position = 0, current_file = None\<rparr>"

section \<open>Notions used to state the properties\<close>

definition issue_key :: "issue_row \<Rightarrow> string \<times> string" where
  \<comment> \<open>the pair that identifies an issue: its type and its component\<close>
  "issue_key r = (issue_type r, issue.component r)"

definition open_keys :: "database \<Rightarrow> (string \<times> string) list" where
  \<comment> \<open>the keys of the unresolved rows, in table order\<close>
  "open_keys db = map issue_key (filter (\<lambda>r. \<not> resolved r) (issues db))"

definition one_open_per_key :: "database \<Rightarrow> bool" where
  \<comment> \<open>at most one unresolved row for each pair of issue type and component\<close>
  "one_open_per_key db = distinct (open_keys db)"

definition has_open_match :: "database \<Rightarrow> issue \<Rightarrow> bool" where
  "has_open_match db obs = list_ex (is_open_match obs) (issues db)"

definition reconcile_all :: "database \<Rightarrow> (nat \<times> issue) list \<Rightarrow> database" where
  \<comment> \<open>a sequence of reconciliations, each at its own time\<close>
  "reconcile_all db ops = foldl (\<lambda>d (now, obs). reconcile now d obs) db ops"

definition table_ok :: "database \<Rightarrow> bool" where
  \<comment> \<open>\<^verbatim>\<open>id\<close> is a key of the table, and every \<^verbatim>\<open>id\<close> in use was drawn from the counter\<close>
  "table_ok db =
     (distinct (map issue_id (issues db)) \<and>
      list_all (\<lambda>r. issue_id r < issues_id_seq db) (issues db))"

definition merged :: "nat \<Rightarrow> issue \<Rightarrow> issue_row \<Rightarrow> issue_row" where
  \<comment> \<open>a row after an observation has been merged into it at time \<open>now\<close>\<close>
  "merged now obs r =
     r\<lparr>occurrence_count := occurrence_count r + occurrence_count obs, last_seen := now,
       severity := severity obs, description := description obs\<rparr>"

definition empty_database :: "nat \<Rightarrow> database" where
  \<comment> \<open>a database without rows, whose counter for \<^verbatim>\<open>issues.id\<close> stands at \<open>k\<close>\<close>
  "empty_database k = \<lparr>log_entries = [], issues = [], issues_id_seq = k\<rparr>"

definition timeout_observation :: "string \<Rightarrow> nat \<Rightarrow> issue" where
  \<comment> \<open>an observation of (Database Timeout, Database) with severity \<open>sev\<close> and count \<open>n\<close>\<close>
  "timeout_observation sev n =
     \<lparr>issue_type = ''Database Timeout'', severity = sev, description = DatabaseTimeoutText n,
      component = ''Database'', occurrence_count = n\<rparr>"

definition example_config :: config where
  "example_config = \<lparr>log_directory = ''logs'', log_file_prefix = ''app_''\<rparr>"

definition example_environment :: environment where
  \<comment> \<open>a directory in which \<^verbatim>\<open>app_2.log\<close> has appeared beside \<^verbatim>\<open>app_1.log\<close>\<close>
  "example_environment =
     \<lparr>listing = Some [''app_1.log'', ''app_2.log'', ''notes.txt''],
      files = [''logs/app_1.log'' \<mapsto> ''old line'' @ [CHR 0x0A],
               ''logs/app_2.log'' \<mapsto> ''abc'' @ [CHR 0x0A]],
      clock = 9\<rparr>"

definition example_state :: loop_state where
  \<comment> \<open>the loop after it has read 9 characters of \<^verbatim>\<open>app_1.log\<close>\<close>
  "example_state =
     \<lparr>conn = empty_database 1, last_position = 9, current_file = Some ''logs/app_1.log''\<rparr>"



definition total_count_of :: "string \<Rightarrow> log_entry list \<Rightarrow> nat" where
  \<comment> \<open>the number of records of a component in a batch\<close>
  "total_count_of c entries = length (filter (\<lambda>e. log_entry.component e = c) entries)"

definition error_count_of :: "string \<Rightarrow> log_entry list \<Rightarrow> nat" where
  \<comment> \<open>the number of ERROR records of a component in a batch\<close>
  "error_count_of c entries =
     length (filter (\<lambda>e. log_entry.component e = c \<and> level e = ''ERROR'') entries)"

definition observations_of :: "string \<Rightarrow> issue list \<Rightarrow> issue list" where
  \<comment> \<open>the observations of one issue type, in their order\<close>
  "observations_of t iss = filter (\<lambda>i. issue_type i = t) iss"

definition contains_ci :: "string \<Rightarrow> string \<Rightarrow> bool" where
  \<comment> \<open>some stretch of the text is \<open>sub\<close> up to the case of its letters\<close>
  "contains_ci s sub = (\<exists>pre mid post. s = pre @ mid @ post \<and> lower mid = sub)"

definition is_auth_failure :: "log_entry \<Rightarrow> bool" where
  \<comment> \<open>an ERROR record of component Auth whose message mentions a failure\<close>
  "is_auth_failure e =
     (level e = ''ERROR'' \<and> log_entry.component e = ''Auth'' \<and>
      (contains_ci (message e) ''failed'' \<or> contains_ci (message e) ''invalid''))"

definition example_entry :: "string \<Rightarrow> string \<Rightarrow> string \<Rightarrow> log_entry" where
  \<comment> \<open>a record with the given level, component and message and no extracted field\<close>
  "example_entry lv co ms =
     \<lparr>timestamp = ''2024-01-01 00:00:00'', level = lv, component = co, message = ms,
      response_time = None, user_id = None, error_code = None\<rparr>"

definition two_issue_database :: database where
  \<comment> \<open>a table with an unresolved row for each of two keys\<close>
  "two_issue_database =
     \<lparr>log_entries = [],
      issues = [\<lparr>issue_type = ''Slow Response Time'', severity = ''MEDIUM'',
                 description = SlowResponseText 1 4000, component = ''API'',
                 occurrence_count = 1, issue_id = 1, first_seen = 2, last_seen = 2,
                 resolved = False\<rparr>,
                \<lparr>issue_type = ''Database Timeout'', severity = ''HIGH'',
                 description = DatabaseTimeoutText 3, component = ''Database'',
                 occurrence_count = 3, issue_id = 2, first_seen = 5, last_seen = 5,
                 resolved = False\<rparr>],
      issues_id_seq = 3\<rparr>"



section \<open>Properties\<close>

subsection \<open>Whitespace around a line\<close>

lemma dropWhile_rev_fix:
  assumes "u = [] \<or> \<not> P (hd u)"
  shows "dropWhile P (rev (dropWhile P (rev u))) = rev (dropWhile P (rev u))"
proof (cases "dropWhile P (rev u) = []")
  case True
  then have "dropWhile P (rev (dropWhile P (rev u))) = []"
    by (simp only: rev.simps dropWhile.simps)
  then show ?thesis using True by (simp only: rev.simps)
next
  case False
  define v where "v = dropWhile P (rev u)"
  have "rev u = takeWhile P (rev u) @ v" by (simp add: v_def)
  then have "u = rev v @ rev (takeWhile P (rev u))" by (metis rev_append rev_rev_ident)
  moreover have "rev v \<noteq> []" using False by (simp add: v_def)
  ultimately have "hd u = hd (rev v)" by (metis hd_append2)
  moreover have "u \<noteq> []" using False by auto
  ultimately have "\<not> P (hd (rev v))" using assms by simp
  then have "dropWhile P (rev v) = rev v" using \<open>rev v \<noteq> []\<close> by (cases "rev v") auto
  then show ?thesis by (simp add: v_def)
qed

lemma dropWhile_hd: "dropWhile P s = [] \<or> \<not> P (hd (dropWhile P s))"
  by (metis hd_dropWhile)

lemma dropWhile_fix: "v = [] \<or> \<not> P (hd v) \<Longrightarrow> dropWhile P v = v"
  by (cases v) auto

lemma strip_strip: "strip (strip s) = strip s"
proof -
  define u where "u = dropWhile isspace s"
  define v where "v = dropWhile isspace (rev u)"
  have u: "u = [] \<or> \<not> isspace (hd u)" unfolding u_def by (rule dropWhile_hd)
  have v: "v = [] \<or> \<not> isspace (hd v)" unfolding v_def by (rule dropWhile_hd)
  have 1: "dropWhile isspace (rev v) = rev v"
    unfolding v_def using u by (rule dropWhile_rev_fix [where P = isspace and u = u])
  have 2: "dropWhile isspace v = v"
    using v by (rule dropWhile_fix [where P = isspace and v = v])
  have "strip s = rev v" by (simp add: strip_def u_def v_def)
  moreover have "strip (rev v) = rev v" by (simp add: strip_def 1 2)
  ultimately show ?thesis by simp
qed

text \<open>
  C10. \<^verbatim>\<open>parse_log_line\<close> gives the same result on a line and on the line without its
  leading and trailing whitespace: whether the line parses, and every field of the record,
  are the same.
\<close>

theorem parse_log_line_strip: "parse_log_line (strip line) = parse_log_line line"
  by (simp add: parse_log_line_def strip_strip)

theorem parse_log_line_strip_witness:
  "parse_log_line (strip ([CHR 0x09] @ ''2024-01-01 00:00:00 INFO [X] hi 12ms'' @ [CHR 0x0A]))
     = parse_log_line ([CHR 0x09] @ ''2024-01-01 00:00:00 INFO [X] hi 12ms'' @ [CHR 0x0A])
   \<and> strip ([CHR 0x09] @ ''2024-01-01 00:00:00 INFO [X] hi 12ms'' @ [CHR 0x0A])
     = ''2024-01-01 00:00:00 INFO [X] hi 12ms''"
proof
  show "parse_log_line (strip ([CHR 0x09] @ ''2024-01-01 00:00:00 INFO [X] hi 12ms'' @ [CHR 0x0A]))
     = parse_log_line ([CHR 0x09] @ ''2024-01-01 00:00:00 INFO [X] hi 12ms'' @ [CHR 0x0A])"
    by (rule parse_log_line_strip)
  show "strip ([CHR 0x09] @ ''2024-01-01 00:00:00 INFO [X] hi 12ms'' @ [CHR 0x0A])
     = ''2024-01-01 00:00:00 INFO [X] hi 12ms''"
    by code_simp
qed

subsection \<open>The issues table\<close>


lemma select_existing_None: "select_existing db obs = None \<longleftrightarrow> \<not> has_open_match db obs"
proof (cases "filter (is_open_match obs) (issues db)")
  case Nil
  then show ?thesis
    by (simp add: select_existing_def has_open_match_def list_ex_iff filter_empty_conv)
next
  case (Cons r rs)
  then have "r \<in> set (filter (is_open_match obs) (issues db))" by simp
  then have "has_open_match db obs" by (auto simp: has_open_match_def list_ex_iff)
  then show ?thesis using Cons by (simp add: select_existing_def)
qed

lemma most_recent_mem: "most_recent r rs \<in> set (r # rs)"
  unfolding most_recent_def
  by (induction rs arbitrary: r) (auto split: if_splits)

lemma select_existing_Some:
  "select_existing db obs = Some x \<Longrightarrow> x \<in> set (issues db) \<and> is_open_match obs x"
proof -
  assume a: "select_existing db obs = Some x"
  then obtain r rs where f: "filter (is_open_match obs) (issues db) = r # rs"
    and x: "x = most_recent r rs"
    by (auto simp: select_existing_def split: list.splits)
  have "x \<in> set (r # rs)" unfolding x by (rule most_recent_mem)
  then have "x \<in> set (filter (is_open_match obs) (issues db))" by (simp only: f)
  then show ?thesis by simp
qed

lemma update_issue_key: "issue_key (update_issue now n obs i r) = issue_key r"
  by (simp add: update_issue_def issue_key_def)

lemma update_issue_resolved: "resolved (update_issue now n obs i r) = resolved r"
  by (simp add: update_issue_def)

lemma open_keys_update:
  "open_keys (db\<lparr>issues := map (update_issue now n obs i) (issues db)\<rparr>) = open_keys db"
  by (simp add: open_keys_def filter_map o_def update_issue_key update_issue_resolved)

lemma open_keys_insert:
  "open_keys (db\<lparr>issues := issues db @ [new_issue_row now i obs], issues_id_seq := k\<rparr>)
     = open_keys db @ [(issue_type obs, issue.component obs)]"
  by (simp add: open_keys_def new_issue_row_def resolved_default_def issue_key_def)

lemma has_open_match_keys:
  "has_open_match db obs \<longleftrightarrow> (issue_type obs, issue.component obs) \<in> set (open_keys db)"
  by (force simp: has_open_match_def list_ex_iff open_keys_def is_open_match_def issue_key_def)

lemma reconcile_open_keys:
  "open_keys (reconcile now db obs) =
     (if has_open_match db obs then open_keys db
      else open_keys db @ [(issue_type obs, issue.component obs)])"
proof (cases "select_existing db obs")
  case None
  then have "\<not> has_open_match db obs" by (simp add: select_existing_None)
  then show ?thesis using None by (simp add: reconcile_def open_keys_insert)
next
  case (Some x)
  then have "has_open_match db obs"
    using select_existing_None [of db obs] by simp
  then show ?thesis using Some by (simp add: reconcile_def Let_def open_keys_update)
qed

lemma reconcile_one_open: "one_open_per_key db \<Longrightarrow> one_open_per_key (reconcile now db obs)"
  by (simp add: one_open_per_key_def reconcile_open_keys has_open_match_keys)

lemma foldl_reconcile_one_open:
  "one_open_per_key db \<Longrightarrow> one_open_per_key (foldl (reconcile now) db iss)"
  by (induction iss arbitrary: db) (simp_all add: reconcile_one_open)

lemma insert_issues_one_open:
  "one_open_per_key db \<Longrightarrow> one_open_per_key (insert_issues now db iss)"
  by (simp add: insert_issues_def foldl_reconcile_one_open)

lemma reconcile_all_one_open:
  "one_open_per_key db \<Longrightarrow> one_open_per_key (reconcile_all db ops)"
  unfolding reconcile_all_def
  by (induction ops arbitrary: db) (simp_all add: reconcile_one_open split: prod.splits)

lemma reconcile_issues:
  "if has_open_match db obs
   then length (issues (reconcile now db obs)) = length (issues db)
   else issues (reconcile now db obs) = issues db @ [new_issue_row now (issues_id_seq db) obs]"
proof (cases "select_existing db obs")
  case None
  then have "\<not> has_open_match db obs" by (simp add: select_existing_None)
  then show ?thesis using None by (simp add: reconcile_def)
next
  case (Some x)
  then have "has_open_match db obs"
    using select_existing_None [of db obs] by simp
  then show ?thesis using Some by (simp add: reconcile_def Let_def)
qed

lemma distinct_filter_index:
  "distinct (map f (filter P xs)) \<Longrightarrow> i < length xs \<Longrightarrow> j < length xs \<Longrightarrow>
   P (xs ! i) \<Longrightarrow> P (xs ! j) \<Longrightarrow> f (xs ! i) = f (xs ! j) \<Longrightarrow> i = j"
proof (induction xs arbitrary: i j)
  case Nil
  then show ?case by simp
next
  case (Cons x xs)
  show ?case
  proof (cases i)
    case 0
    show ?thesis
    proof (cases j)
      case (Suc j')
      with 0 Cons.prems have "P x" "j' < length xs" "P (xs ! j')" "f x = f (xs ! j')" by simp_all
      then have "xs ! j' \<in> set (filter P xs)" by simp
      then have "f x \<in> f ` set (filter P xs)" using \<open>f x = f (xs ! j')\<close> by (metis imageI)
      with Cons.prems(1) \<open>P x\<close> show ?thesis by simp
    qed (simp add: 0)
  next
    case (Suc i')
    show ?thesis
    proof (cases j)
      case 0
      with Suc Cons.prems have "P x" "i' < length xs" "P (xs ! i')" "f x = f (xs ! i')" by simp_all
      then have "xs ! i' \<in> set (filter P xs)" by simp
      then have "f x \<in> f ` set (filter P xs)" using \<open>f x = f (xs ! i')\<close> by (metis imageI)
      with Cons.prems(1) \<open>P x\<close> show ?thesis by simp
    next
      case (Suc j')
      have d: "distinct (map f (filter P xs))" using Cons.prems(1) by (simp split: if_splits)
      have "i' = j'"
        using Cons.IH [OF d, of i' j'] Cons.prems \<open>i = Suc i'\<close> Suc by simp
      then show ?thesis using \<open>i = Suc i'\<close> Suc by simp
    qed
  qed
qed

lemma select_existing_unique:
  assumes inv: "one_open_per_key db"
    and i: "i < length (issues db)" and m: "is_open_match obs (issues db ! i)"
  shows "select_existing db obs = Some (issues db ! i)"
proof -
  have "has_open_match db obs"
    using i m by (auto simp: has_open_match_def list_ex_iff)
  then obtain x where x: "select_existing db obs = Some x"
    using select_existing_None [of db obs] by (cases "select_existing db obs") auto
  then have "x \<in> set (issues db)" "is_open_match obs x"
    using select_existing_Some [OF x] by simp_all
  then obtain j where j: "j < length (issues db)" "issues db ! j = x"
    by (auto simp: in_set_conv_nth)
  have d: "distinct (map issue_key (filter (\<lambda>r. \<not> resolved r) (issues db)))"
    using inv by (simp add: one_open_per_key_def open_keys_def)
  have "i = j"
    using distinct_filter_index [OF d i j(1)] m \<open>is_open_match obs x\<close> j(2)
    by (simp add: is_open_match_def issue_key_def)
  then show ?thesis using x j by simp
qed

lemma map_update_unique:
  assumes d: "distinct (map issue_id rows)" and i: "i < length rows"
  shows "map (update_issue now n obs (issue_id (rows ! i))) rows
           = rows[i := update_issue now n obs (issue_id (rows ! i)) (rows ! i)]"
proof (rule nth_equalityI)
  show "length (map (update_issue now n obs (issue_id (rows ! i))) rows)
          = length (rows[i := update_issue now n obs (issue_id (rows ! i)) (rows ! i)])"
    by simp
next
  fix j
  assume "j < length (map (update_issue now n obs (issue_id (rows ! i))) rows)"
  then have j: "j < length rows" by simp
  show "map (update_issue now n obs (issue_id (rows ! i))) rows ! j
          = rows[i := update_issue now n obs (issue_id (rows ! i)) (rows ! i)] ! j"
  proof (cases "j = i")
    case True
    then show ?thesis using i by simp
  next
    case False
    have "map issue_id rows ! j \<noteq> map issue_id rows ! i"
      using d i j False by (simp add: nth_eq_iff_index_eq del: nth_map)
    then have "issue_id (rows ! j) \<noteq> issue_id (rows ! i)" using i j by simp
    then show ?thesis using j False by (simp add: update_issue_def)
  qed
qed

lemma reconcile_merge:
  assumes "table_ok db" "one_open_per_key db"
    and i: "i < length (issues db)" and m: "is_open_match obs (issues db ! i)"
  shows "reconcile now db obs = db\<lparr>issues := (issues db)[i := merged now obs (issues db ! i)]\<rparr>"
proof -
  have s: "select_existing db obs = Some (issues db ! i)"
    using assms(2) i m by (rule select_existing_unique)
  have d: "distinct (map issue_id (issues db))" using assms(1) by (simp add: table_ok_def)
  have u: "update_issue now (occurrence_count (issues db ! i) + occurrence_count obs) obs
             (issue_id (issues db ! i)) (issues db ! i) = merged now obs (issues db ! i)"
    by (simp add: update_issue_def merged_def)
  show ?thesis
    by (simp add: reconcile_def s Let_def map_update_unique [OF d i] u)
qed

lemma two_timeouts:
  "issues (insert_issues t2 (insert_issues t1 (empty_database k) [timeout_observation s1 3])
             [timeout_observation s2 2])
     = [\<lparr>issue_type = ''Database Timeout'', severity = s2, description = DatabaseTimeoutText 2,
         component = ''Database'', occurrence_count = 5,
         issue_id = k, first_seen = t1, last_seen = t2, resolved = False\<rparr>]"
  by (simp add: insert_issues_def reconcile_def select_existing_def is_open_match_def
      empty_database_def timeout_observation_def new_issue_row_def resolved_default_def
      most_recent_def update_issue_def)

text \<open>
  C1. In a table with a key \<^verbatim>\<open>id\<close> and at most one unresolved row per pair of issue type
  and component, reconciling an observation that matches the unresolved row at index \<open>i\<close>
  replaces that row, and no other, by the merged row: its count grows by the count of the
  observation, \<^verbatim>\<open>last_seen\<close> is the current time, severity and description are those of the
  observation, and \<^verbatim>\<open>first_seen\<close>, \<^verbatim>\<open>id\<close>, issue type, component and \<^verbatim>\<open>resolved\<close> stay.
  Two observations of (Database Timeout, Database) with counts 3 and 2, reconciled at
  times \<open>t1\<close> and \<open>t2\<close> into an empty table, leave one row with count 5, first seen at
  \<open>t1\<close> and last seen at \<open>t2\<close>.
\<close>

theorem merge_on_match:
  assumes "table_ok db" "one_open_per_key db"
    and "i < length (issues db)" and "is_open_match obs (issues db ! i)"
  shows "reconcile now db obs = db\<lparr>issues := (issues db)[i := merged now obs (issues db ! i)]\<rparr> \<and>
         occurrence_count (merged now obs (issues db ! i))
           = occurrence_count (issues db ! i) + occurrence_count obs \<and>
         last_seen (merged now obs (issues db ! i)) = now \<and>
         severity (merged now obs (issues db ! i)) = severity obs \<and>
         description (merged now obs (issues db ! i)) = description obs \<and>
         first_seen (merged now obs (issues db ! i)) = first_seen (issues db ! i) \<and>
         issue_id (merged now obs (issues db ! i)) = issue_id (issues db ! i) \<and>
         issue_type (merged now obs (issues db ! i)) = issue_type (issues db ! i) \<and>
         issue.component (merged now obs (issues db ! i)) = issue.component (issues db ! i) \<and>
         resolved (merged now obs (issues db ! i)) = resolved (issues db ! i) \<and>
         issues (insert_issues t2 (insert_issues t1 (empty_database k) [timeout_observation s1 3])
             [timeout_observation s2 2])
           = [\<lparr>issue_type = ''Database Timeout'', severity = s2,
               description = DatabaseTimeoutText 2, component = ''Database'',
               occurrence_count = 5, issue_id = k, first_seen = t1, last_seen = t2,
               resolved = False\<rparr>]"
  using reconcile_merge [OF assms, of now] two_timeouts [of t2 t1 k s1 s2]
  by (simp add: merged_def)

theorem merge_on_match_witness:
  "table_ok (insert_issues 5 (empty_database 1) [timeout_observation ''HIGH'' 3]) \<and>
   one_open_per_key (insert_issues 5 (empty_database 1) [timeout_observation ''HIGH'' 3]) \<and>
   is_open_match (timeout_observation ''CRITICAL'' 2)
     (issues (insert_issues 5 (empty_database 1) [timeout_observation ''HIGH'' 3]) ! 0) \<and>
   issues (reconcile 7 (insert_issues 5 (empty_database 1) [timeout_observation ''HIGH'' 3])
        (timeout_observation ''CRITICAL'' 2))
     = [\<lparr>issue_type = ''Database Timeout'', severity = ''CRITICAL'',
         description = DatabaseTimeoutText 2, component = ''Database'',
         occurrence_count = 5, issue_id = 1, first_seen = 5, last_seen = 7,
         resolved = False\<rparr>]"
proof -
  let ?db = "insert_issues 5 (empty_database 1) [timeout_observation ''HIGH'' 3]"
  let ?o = "timeout_observation ''CRITICAL'' 2"
  have h1: "table_ok ?db" by code_simp
  have h2: "one_open_per_key ?db" by code_simp
  have h3: "0 < length (issues ?db)" by code_simp
  have h4: "is_open_match ?o (issues ?db ! 0)" by code_simp
  have e: "reconcile 7 ?db ?o = ?db\<lparr>issues := (issues ?db)[0 := merged 7 ?o (issues ?db ! 0)]\<rparr>"
    using merge_on_match [OF h1 h2 h3 h4] by (rule conjunct1)
  have r: "issues (?db\<lparr>issues := (issues ?db)[0 := merged 7 ?o (issues ?db ! 0)]\<rparr>)
     = [\<lparr>issue_type = ''Database Timeout'', severity = ''CRITICAL'',
         description = DatabaseTimeoutText 2, component = ''Database'',
         occurrence_count = 5, issue_id = 1, first_seen = 5, last_seen = 7,
         resolved = False\<rparr>]"
    by code_simp
  show ?thesis using h1 h2 h4 e r by simp
qed

lemma reconcile_table_ok: "table_ok db \<Longrightarrow> table_ok (reconcile now db obs)"
proof (cases "select_existing db obs")
  case None
  assume "table_ok db"
  then show ?thesis using None
    by (auto simp: reconcile_def table_ok_def new_issue_row_def list_all_iff)
next
  case (Some x)
  assume t: "table_ok db"
  have "map issue_id (map (update_issue now n obs k) rows) = map issue_id rows" for n k rows
    by (simp add: update_issue_def o_def)
  moreover have "list_all (\<lambda>r. issue_id r < c) (map (update_issue now n obs k) rows)
      = list_all (\<lambda>r. issue_id r < c) rows" for n k rows c
    by (induction rows) (simp_all add: update_issue_def)
  ultimately show ?thesis using Some t
    by (simp add: reconcile_def table_ok_def Let_def del: map_map)
qed

lemma reconcile_new:
  "\<not> has_open_match db obs \<Longrightarrow>
   reconcile now db obs =
     db\<lparr>issues := issues db @ [new_issue_row now (issues_id_seq db) obs],
        issues_id_seq := Suc (issues_id_seq db)\<rparr>"
  by (simp add: reconcile_def select_existing_None [symmetric])

lemma reconcile_update:
  assumes inv: "one_open_per_key db" and h: "has_open_match db obs"
  shows "\<exists>i<length (issues db).
           is_open_match obs (issues db ! i) \<and>
           (\<forall>j<length (issues db). is_open_match obs (issues db ! j) \<longrightarrow> j = i) \<and>
           reconcile now db obs =
             db\<lparr>issues := map (\<lambda>r. if issue_id r = issue_id (issues db ! i)
                                   then r\<lparr>last_seen := now,
                                          occurrence_count :=
                                            occurrence_count (issues db ! i) + occurrence_count obs,
                                          severity := severity obs,
                                          description := description obs\<rparr>
                                   else r) (issues db)\<rparr> \<and>
           (table_ok db \<longrightarrow>
              reconcile now db obs =
                db\<lparr>issues := (issues db)[i := merged now obs (issues db ! i)]\<rparr>)"
proof -
  from h obtain i where i: "i < length (issues db)" and m: "is_open_match obs (issues db ! i)"
    by (auto simp: has_open_match_def list_ex_iff in_set_conv_nth)
  have d: "distinct (map issue_key (filter (\<lambda>r. \<not> resolved r) (issues db)))"
    using inv by (simp add: one_open_per_key_def open_keys_def)
  have u: "j = i" if "j < length (issues db)" "is_open_match obs (issues db ! j)" for j
    using distinct_filter_index [OF d that(1) i] that(2) m
    by (simp add: is_open_match_def issue_key_def)
  have s: "select_existing db obs = Some (issues db ! i)"
    using inv i m by (rule select_existing_unique)
  have r: "reconcile now db obs =
             db\<lparr>issues := map (\<lambda>r. if issue_id r = issue_id (issues db ! i)
                                   then r\<lparr>last_seen := now,
                                          occurrence_count :=
                                            occurrence_count (issues db ! i) + occurrence_count obs,
                                          severity := severity obs,
                                          description := description obs\<rparr>
                                   else r) (issues db)\<rparr>"
    by (simp add: reconcile_def s Let_def update_issue_def [abs_def])
  have t: "reconcile now db obs = db\<lparr>issues := (issues db)[i := merged now obs (issues db ! i)]\<rparr>"
    if "table_ok db"
    using that inv i m by (rule reconcile_merge)
  show ?thesis using i m u r t by blast
qed

text \<open>
  C2. A store with at most one unresolved row per pair of issue type and component keeps
  that property under every sequence of reconciliations and under \<^verbatim>\<open>insert_issues\<close>. One
  reconciliation of an observation whose key no unresolved row has appends the new row and
  changes nothing else. Otherwise exactly one row is unresolved with the key of the
  observation, and the reconciliation writes the count of that row plus the count of the
  observation, the current time as \<^verbatim>\<open>last_seen\<close>, and the severity and description of the
  observation into every row with the \<^verbatim>\<open>id\<close> of that row, and leaves every other row, the
  number of rows and the rest of the database as they are; where \<^verbatim>\<open>id\<close> is a key of the
  table, that is the one row, and the table is the old one with that row merged.
\<close>

theorem one_open_per_key_kept:
  assumes "one_open_per_key db"
  shows "one_open_per_key (reconcile_all db ops) \<and>
         one_open_per_key (insert_issues now db iss) \<and>
         (if has_open_match db obs
          then (\<exists>i<length (issues db).
                  is_open_match obs (issues db ! i) \<and>
                  (\<forall>j<length (issues db). is_open_match obs (issues db ! j) \<longrightarrow> j = i) \<and>
                  reconcile now db obs =
                    db\<lparr>issues := map (\<lambda>r. if issue_id r = issue_id (issues db ! i)
                                   then r\<lparr>last_seen := now,
                                          occurrence_count :=
                                            occurrence_count (issues db ! i) + occurrence_count obs,
                                          severity := severity obs,
                                          description := description obs\<rparr>
                                   else r) (issues db)\<rparr> \<and>
                  (table_ok db \<longrightarrow>
                     reconcile now db obs =
                       db\<lparr>issues := (issues db)[i := merged now obs (issues db ! i)]\<rparr>)) \<and>
               length (issues (reconcile now db obs)) = length (issues db) \<and>
               open_keys (reconcile now db obs) = open_keys db
          else reconcile now db obs =
                 db\<lparr>issues := issues db @ [new_issue_row now (issues_id_seq db) obs],
                    issues_id_seq := Suc (issues_id_seq db)\<rparr>)"
proof (cases "has_open_match db obs")
  case True
  have "length (issues (reconcile now db obs)) = length (issues db)"
    using reconcile_issues [of db obs now] True by simp
  then show ?thesis
    using assms True reconcile_update [OF assms True, of now]
    by (simp add: reconcile_all_one_open insert_issues_one_open reconcile_open_keys)
next
  case False
  then show ?thesis
    using assms by (simp add: reconcile_all_one_open insert_issues_one_open reconcile_new)
qed

theorem one_open_per_key_kept_witness:
  "one_open_per_key two_issue_database \<and>
   has_open_match two_issue_database (timeout_observation ''CRITICAL'' 2) \<and>
   table_ok two_issue_database \<and>
   one_open_per_key (reconcile_all two_issue_database
     [(7, timeout_observation ''CRITICAL'' 2), (8, timeout_observation ''HIGH'' 1)]) \<and>
   reconcile 7 two_issue_database (timeout_observation ''CRITICAL'' 2)
     = two_issue_database\<lparr>issues :=
         [issues two_issue_database ! 0,
          \<lparr>issue_type = ''Database Timeout'', severity = ''CRITICAL'',
           description = DatabaseTimeoutText 2, component = ''Database'',
           occurrence_count = 5, issue_id = 2, first_seen = 5, last_seen = 7,
           resolved = False\<rparr>]\<rparr>"
proof -
  let ?db = two_issue_database
  let ?o = "timeout_observation ''CRITICAL'' 2"
  have h: "one_open_per_key ?db" by code_simp
  have m: "has_open_match ?db ?o" by code_simp
  have t: "table_ok ?db" by code_simp
  have n: "\<not> is_open_match ?o (issues ?db ! 0)" by code_simp
  have l: "length (issues ?db) = 2" by code_simp
  have a: "one_open_per_key (reconcile_all ?db
     [(7, timeout_observation ''CRITICAL'' 2), (8, timeout_observation ''HIGH'' 1)])"
    using one_open_per_key_kept [OF h] by (rule conjunct1)
  have "\<exists>i<length (issues ?db). is_open_match ?o (issues ?db ! i) \<and>
          (table_ok ?db \<longrightarrow>
             reconcile 7 ?db ?o = ?db\<lparr>issues := (issues ?db)[i := merged 7 ?o (issues ?db ! i)]\<rparr>)"
    using one_open_per_key_kept [OF h, of _ 7 _ ?o] by (simp only: m if_True) blast
  then obtain i where i: "i < length (issues ?db)" "is_open_match ?o (issues ?db ! i)"
    "reconcile 7 ?db ?o = ?db\<lparr>issues := (issues ?db)[i := merged 7 ?o (issues ?db ! i)]\<rparr>"
    using t by blast
  have "i = 1" using i(1,2) n l by (cases i) auto
  moreover have "(issues ?db)[1 := merged 7 ?o (issues ?db ! 1)]
     = [issues two_issue_database ! 0,
          \<lparr>issue_type = ''Database Timeout'', severity = ''CRITICAL'',
           description = DatabaseTimeoutText 2, component = ''Database'',
           occurrence_count = 5, issue_id = 2, first_seen = 5, last_seen = 7,
           resolved = False\<rparr>]"
    by code_simp
  ultimately show ?thesis using h m t a i(3) by simp
qed

subsection \<open>Reading the tail of a file\<close>



















subsection \<open>The main loop\<close>

lemma cycle_reading:
  "get_latest_log_file cfg env = Some p \<Longrightarrow> p \<noteq> [] \<Longrightarrow>
   cycle cfg env st =
     ((case tail_file (files env) p (last_position (track p st)) of
         Inl e \<Rightarrow> Inl e
       | Inr (new_lines, pos) \<Rightarrow>
           (case process (clock env) (conn (track p st)) new_lines of
              Inl e \<Rightarrow> Inl e
            | Inr db \<Rightarrow> Inr ((track p st)\<lparr>last_position := pos, conn := db\<rparr>))),
      Some (p, last_position (track p st)))"
  by (simp add: cycle_def Let_def)

lemma cycle_waiting:
  "get_latest_log_file cfg env = None \<or> get_latest_log_file cfg env = Some [] \<Longrightarrow>
   cycle cfg env st = (Inr st, None)"
  by (auto simp: cycle_def)

lemma current_file_track: "current_file (track p st) = Some p"
  by (simp add: track_def)

lemma cycle_read:
  assumes "snd (cycle cfg env st) = Some (p, off)"
  shows "get_latest_log_file cfg env = Some p \<and> p \<noteq> [] \<and> off = last_position (track p st)"
proof (cases "get_latest_log_file cfg env")
  case None
  then show ?thesis using assms by (simp add: cycle_waiting)
next
  case (Some q)
  show ?thesis
  proof (cases "q = []")
    case True
    then show ?thesis using assms Some by (simp add: cycle_waiting)
  next
    case False
    then show ?thesis using assms Some
      by (auto simp: cycle_reading [OF Some False])
  qed
qed

lemma cycle_tracks:
  assumes "snd (cycle cfg env st) = Some (p, off)" and "fst (cycle cfg env st) = Inr st'"
  shows "current_file st' = Some p"
proof -
  have g: "get_latest_log_file cfg env = Some p" and ne: "p \<noteq> []"
    using cycle_read [OF assms(1)] by simp_all
  show ?thesis
    using assms(2) current_file_track [of p st]
    by (auto simp: cycle_reading [OF g ne] split: sum.splits prod.splits)
qed

lemma track_reset: "current_file st \<noteq> Some p \<Longrightarrow> last_position (track p st) = 0"
  by (auto simp: track_def)

lemma track_keep: "current_file st = Some p \<Longrightarrow> track p st = st"
  by (simp add: track_def)

lemma run_reads:
  "(st', Some (p, off)) \<in> set (run cfg envs st) \<Longrightarrow> current_file st' \<noteq> Some p \<Longrightarrow> off = 0"
proof (induction envs arbitrary: st)
  case Nil
  then show ?case by simp
next
  case (Cons env envs)
  from Cons.prems(1) consider
    (here) "st' = st" "snd (cycle cfg env st) = Some (p, off)"
    | (later) st1 where "fst (cycle cfg env st) = Inr st1"
        "(st', Some (p, off)) \<in> set (run cfg envs st1)"
    by (cases "fst (cycle cfg env st)") auto
  then show ?case
  proof cases
    case here
    then have "off = last_position (track p st)" using cycle_read by blast
    then show ?thesis using here(1) Cons.prems(2) by (simp add: track_reset)
  next
    case later
    then show ?thesis using Cons.IH Cons.prems(2) by blast
  qed
qed

text \<open>
  C9. In a round of the loop whose discovered path differs from the tracked path, the
  call of \<^verbatim>\<open>tail_file\<close> is made at offset 0, whatever the offset was; the round ends either
  with the exception that this read or the processing of its lines raises, or tracking the
  discovered path at the offset that this read returns. Over every run of the loop, no
  read of a path other than the one tracked before the round has an offset other than 0.
\<close>

theorem rotation_resets_offset:
  "(snd (cycle cfg env st) = Some (p, off) \<and> current_file st \<noteq> Some p \<longrightarrow>
      off = 0 \<and>
      (\<forall>st'. fst (cycle cfg env st) = Inr st' \<longrightarrow> current_file st' = Some p) \<and>
      fst (cycle cfg env st) =
        (case tail_file (files env) p 0 of
           Inl e \<Rightarrow> Inl e
         | Inr (new_lines, pos) \<Rightarrow>
             (case process (clock env) (conn st) new_lines of
                Inl e \<Rightarrow> Inl e
              | Inr db \<Rightarrow>
                  Inr (st\<lparr>current_file := Some p, last_position := pos, conn := db\<rparr>)))) \<and>
   (\<forall>st' q k. (st', Some (q, k)) \<in> set (run cfg envs st0) \<and> current_file st' \<noteq> Some q \<longrightarrow> k = 0)"
proof (intro conjI impI allI)
  assume a: "snd (cycle cfg env st) = Some (p, off) \<and> current_file st \<noteq> Some p"
  then have g: "get_latest_log_file cfg env = Some p" and o: "off = last_position (track p st)"
    and ne: "p \<noteq> []"
    using cycle_read by blast+
  show "off = 0" using o a by (simp add: track_reset)
  have t: "track p st = st\<lparr>current_file := Some p, last_position := 0\<rparr>"
    using a by (auto simp: track_def)
  show "fst (cycle cfg env st) =
        (case tail_file (files env) p 0 of
           Inl e \<Rightarrow> Inl e
         | Inr (new_lines, pos) \<Rightarrow>
             (case process (clock env) (conn st) new_lines of
                Inl e \<Rightarrow> Inl e
              | Inr db \<Rightarrow>
                  Inr (st\<lparr>current_file := Some p, last_position := pos, conn := db\<rparr>)))"
    by (simp add: cycle_reading [OF g ne] t split: sum.splits prod.splits)
  fix st'
  assume "fst (cycle cfg env st) = Inr st'"
  then show "current_file st' = Some p" using a cycle_tracks by blast
next
  fix st' q k
  assume "(st', Some (q, k)) \<in> set (run cfg envs st0) \<and> current_file st' \<noteq> Some q"
  then show "k = 0" using run_reads by blast
qed

theorem rotation_resets_offset_witness:
  "snd (cycle example_config example_environment example_state) = Some (''logs/app_2.log'', 0) \<and>
   current_file example_state = Some ''logs/app_1.log'' \<and>
   last_position example_state = 9 \<and>
   map_option last_position
     (case fst (cycle example_config example_environment example_state) of
        Inl e \<Rightarrow> None | Inr st' \<Rightarrow> Some st') = Some 4"
proof -
  have 1: "map_option fst (snd (cycle example_config example_environment example_state))
             = Some ''logs/app_2.log''"
    by code_simp
  then obtain off where
    2: "snd (cycle example_config example_environment example_state) = Some (''logs/app_2.log'', off)"
    by (cases "snd (cycle example_config example_environment example_state)") auto
  have 3: "current_file example_state \<noteq> Some ''logs/app_2.log''" by code_simp
  have "off = 0"
    using rotation_resets_offset
      [of example_config example_environment example_state "''logs/app_2.log''" off] 2 3
    by blast
  moreover have "current_file example_state = Some ''logs/app_1.log''" by code_simp
  moreover have "last_position example_state = 9" by code_simp
  moreover have "map_option last_position
     (case fst (cycle example_config example_environment example_state) of
        Inl e \<Rightarrow> None | Inr st' \<Rightarrow> Some st') = Some 4"
    by code_simp
  ultimately show ?thesis using 2 by simp
qed

subsection \<open>Issue detection\<close>

lemma by_component_add_keys:
  "map fst (by_component_add bc e) =
     (if map_of bc (log_entry.component e) = None then map fst bc @ [log_entry.component e]
      else map fst bc)"
  by (auto simp: by_component_add_def Let_def split: prod.splits)

lemma by_component_add_distinct:
  "distinct (map fst bc) \<Longrightarrow> distinct (map fst (by_component_add bc e))"
  by (auto simp: by_component_add_keys map_of_eq_None_iff)

lemma map_of_map_upd:
  "map_of (map (\<lambda>(k, v). if k = c then (k, f v) else (k, v)) xs) k' =
     (if k' = c then map_option f (map_of xs k') else map_of xs k')"
  by (induction xs) auto

lemma by_component_add_lookup:
  "map_of (by_component_add bc e) c =
     (if c = log_entry.component e
      then Some ((case map_of bc c of None \<Rightarrow> [] | Some v \<Rightarrow> v) @ [e])
      else map_of bc c)"
proof -
  let ?k = "log_entry.component e"
  let ?bc1 = "if map_of bc ?k = None then bc @ [(?k, [])] else bc"
  have 1: "by_component_add bc e = map (\<lambda>(k, v). if k = ?k then (k, v @ [e]) else (k, v)) ?bc1"
    by (simp add: by_component_add_def Let_def)
  have 2: "map_of ?bc1 c = (if c = ?k \<and> map_of bc ?k = None then Some [] else map_of bc c)"
    by (auto simp: map_add_def split: option.splits)
  show ?thesis
    unfolding 1 map_of_map_upd [of ?k "\<lambda>v. v @ [e]"] 2
    by (auto split: option.splits)
qed

lemma foldl_by_component_distinct:
  "distinct (map fst bc) \<Longrightarrow> distinct (map fst (foldl by_component_add bc es))"
  by (induction es arbitrary: bc) (simp_all add: by_component_add_distinct)

lemma foldl_by_component_lookup:
  "map_of (foldl by_component_add bc es) c =
     (if map_of bc c = None \<and> c \<notin> log_entry.component ` set es then None
      else Some ((case map_of bc c of None \<Rightarrow> [] | Some v \<Rightarrow> v)
                 @ filter (\<lambda>e. log_entry.component e = c) es))"
proof (induction es arbitrary: bc)
  case Nil
  then show ?case by (auto split: option.splits)
next
  case (Cons e es)
  show ?case
    by (simp only: foldl_Cons Cons.IH by_component_add_lookup)
       (auto split: option.splits)
qed

lemma by_component_distinct: "distinct (map fst (by_component entries))"
  by (simp add: by_component_def foldl_by_component_distinct)

lemma by_component_lookup:
  "map_of (by_component entries) c =
     (if c \<in> log_entry.component ` set entries
      then Some (filter (\<lambda>e. log_entry.component e = c) entries) else None)"
  by (simp add: by_component_def foldl_by_component_lookup)


lemma error_rate_gt:
  "0 < tc \<Longrightarrow> (error_rate ec tc > of_nat k) = (k * tc < 100 * ec)"
proof -
  assume tc: "0 < tc"
  then have pos: "(0::rat) < of_nat tc" by simp
  have "(error_rate ec tc > of_nat k) = ((of_nat k :: rat) < of_nat ec * 100 / of_nat tc)"
    using tc by (simp add: error_rate_def)
  also have "\<dots> = ((of_nat k :: rat) * of_nat tc < of_nat ec * 100)"
    using pos by (simp add: pos_less_divide_eq)
  also have "\<dots> = ((of_nat (k * tc) :: rat) < of_nat (100 * ec))"
    by (simp add: mult.commute)
  also have "\<dots> = (k * tc < 100 * ec)" by (simp only: of_nat_less_iff)
  finally show ?thesis .
qed

lemma high_error_rate_issue_eq:
  assumes "v \<noteq> []"
  shows "high_error_rate_issue (c, v) =
     (if 10 * length v < 100 * length (filter (\<lambda>e. level e = ''ERROR'') v)
      then [\<lparr>issue_type = ''High Error Rate'',
             severity = (if 20 * length v < 100 * length (filter (\<lambda>e. level e = ''ERROR'') v)
                         then ''HIGH'' else ''MEDIUM''),
             description = HighErrorRateText c
               (error_rate (length (filter (\<lambda>e. level e = ''ERROR'') v)) (length v))
               (length (filter (\<lambda>e. level e = ''ERROR'') v)) (length v),
             component = c,
             occurrence_count = length (filter (\<lambda>e. level e = ''ERROR'') v)\<rparr>]
      else [])"
proof -
  have tc: "0 < length v" using assms by simp
  have a: "(error_rate ec (length v) > 10) = (10 * length v < 100 * ec)" for ec
    using error_rate_gt [OF tc, where ec = ec and k = 10] by simp
  have b: "(error_rate ec (length v) > 20) = (20 * length v < 100 * ec)" for ec
    using error_rate_gt [OF tc, where ec = ec and k = 20] by simp
  show ?thesis by (simp add: high_error_rate_issue_def Let_def a b)
qed

lemma high_error_rate_issue_fields:
  "i \<in> set (high_error_rate_issue (k, v)) \<Longrightarrow>
   issue_type i = ''High Error Rate'' \<and> issue.component i = k"
  by (auto simp: high_error_rate_issue_def Let_def split: if_splits)

lemma filter_high_error_other:
  "k \<noteq> c \<Longrightarrow> filter (\<lambda>i. issue.component i = c) (high_error_rate_issue (k, v)) = []"
  by (auto simp: filter_empty_conv dest: high_error_rate_issue_fields)

lemma filter_high_error_same:
  "filter (\<lambda>i. issue.component i = c) (high_error_rate_issue (c, v)) = high_error_rate_issue (c, v)"
  by (auto simp: filter_id_conv dest: high_error_rate_issue_fields)

lemma filter_concat_high_error:
  "distinct (map fst xs) \<Longrightarrow>
   filter (\<lambda>i. issue.component i = c) (concat (map high_error_rate_issue xs)) =
     (case map_of xs c of None \<Rightarrow> [] | Some v \<Rightarrow> high_error_rate_issue (c, v))"
proof (induction xs)
  case Nil
  then show ?case by simp
next
  case (Cons x xs)
  obtain k v where x: "x = (k, v)" by (cases x)
  have d: "distinct (map fst xs)" and k: "k \<notin> fst ` set xs" using Cons.prems x by auto
  show ?case
  proof (cases "k = c")
    case True
    then have "map_of xs c = None" using k by (simp add: map_of_eq_None_iff)
    then show ?thesis using Cons.IH [OF d] x True by (simp add: filter_high_error_same)
  next
    case False
    then show ?thesis using Cons.IH [OF d] x by (simp add: filter_high_error_other)
  qed
qed

lemma observations_high_error_rate:
  "observations_of ''High Error Rate'' (issues_to_insert entries)
     = concat (map high_error_rate_issue (by_component entries))"
proof -
  have "filter (\<lambda>i. issue_type i = ''High Error Rate'')
          (concat (map high_error_rate_issue xs)) = concat (map high_error_rate_issue xs)" for xs
    by (rule filter_True) (auto dest: high_error_rate_issue_fields)
  then show ?thesis
    by (simp add: observations_of_def issues_to_insert_def db_timeout_issue_def
        slow_response_issue_def auth_failures_issue_def Let_def)
qed

lemma high_error_rate_for:
  "filter (\<lambda>i. issue.component i = c) (observations_of ''High Error Rate'' (issues_to_insert entries))
     = (if 10 * total_count_of c entries < 100 * error_count_of c entries
        then [\<lparr>issue_type = ''High Error Rate'',
               severity = (if 20 * total_count_of c entries < 100 * error_count_of c entries
                           then ''HIGH'' else ''MEDIUM''),
               description = HighErrorRateText c
                 (error_rate (error_count_of c entries) (total_count_of c entries))
                 (error_count_of c entries) (total_count_of c entries),
               component = c,
               occurrence_count = error_count_of c entries\<rparr>]
        else [])"
proof (cases "c \<in> log_entry.component ` set entries")
  case False
  then have "filter (\<lambda>e. log_entry.component e = c) entries = []"
    by (auto simp: filter_empty_conv)
  moreover have "filter (\<lambda>e. log_entry.component e = c \<and> level e = ''ERROR'') entries = []"
    using False by (auto simp: filter_empty_conv)
  ultimately show ?thesis using False
    by (simp add: observations_high_error_rate filter_concat_high_error by_component_distinct
        by_component_lookup total_count_of_def error_count_of_def)
next
  case True
  let ?v = "filter (\<lambda>e. log_entry.component e = c) entries"
  have ne: "?v \<noteq> []" using True by (auto simp: filter_empty_conv)
  have e: "filter (\<lambda>e. level e = ''ERROR'') ?v
             = filter (\<lambda>e. log_entry.component e = c \<and> level e = ''ERROR'') entries"
    by (simp add: conj_commute)
  show ?thesis using True
    by (simp only: observations_high_error_rate
        filter_concat_high_error [OF by_component_distinct] by_component_lookup if_True
        option.case high_error_rate_issue_eq [OF ne] e total_count_of_def error_count_of_def)
qed


lemma startswith_iff: "startswith s p = (\<exists>post. s = p @ post)"
  by (induction s p rule: startswith.induct) auto

lemma contains_iff: "contains s sub = (\<exists>pre post. s = pre @ sub @ post)"
proof (induction s)
  case Nil
  then show ?case by auto
next
  case (Cons c cs)
  show ?case
  proof
    assume "contains (c # cs) sub"
    then consider "startswith (c # cs) sub" | "contains cs sub" by auto
    then show "\<exists>pre post. c # cs = pre @ sub @ post"
    proof cases
      case 1
      then obtain post where "c # cs = sub @ post" by (auto simp: startswith_iff)
      then have "c # cs = [] @ sub @ post" by simp
      then show ?thesis by blast
    next
      case 2
      then obtain pre post where "cs = pre @ sub @ post" using Cons.IH by auto
      then have "c # cs = (c # pre) @ sub @ post" by simp
      then show ?thesis by blast
    qed
  next
    assume "\<exists>pre post. c # cs = pre @ sub @ post"
    then obtain pre post where e: "c # cs = pre @ sub @ post" by auto
    show "contains (c # cs) sub"
    proof (cases pre)
      case Nil
      then have "startswith (c # cs) sub" using e by (auto simp: startswith_iff)
      then show ?thesis by simp
    next
      case (Cons a pre')
      then have "cs = pre' @ sub @ post" using e by simp
      then have "contains cs sub" using Cons.IH by auto
      then show ?thesis by simp
    qed
  qed
qed

lemma contains_lower: "contains (lower s) sub = contains_ci s sub"
proof
  assume "contains (lower s) sub"
  then obtain pre post where e: "lower s = pre @ sub @ post" by (auto simp: contains_iff)
  let ?a = "take (length pre) s"
  let ?b = "take (length sub) (drop (length pre) s)"
  let ?c = "drop (length sub) (drop (length pre) s)"
  have s: "s = ?a @ ?b @ ?c" by (simp only: append_take_drop_id)
  have "lower ?b = take (length sub) (drop (length pre) (lower s))"
    by (simp add: lower_def take_map drop_map)
  also have "\<dots> = sub" by (simp add: e)
  finally show "contains_ci s sub" unfolding contains_ci_def using s by blast
next
  assume "contains_ci s sub"
  then obtain pre mid post where "s = pre @ mid @ post" "lower mid = sub"
    by (auto simp: contains_ci_def)
  then have "lower s = lower pre @ sub @ lower post" by (auto simp: lower_def)
  then show "contains (lower s) sub" unfolding contains_iff by blast
qed

lemma auth_failures_eq: "auth_failures entries = filter is_auth_failure entries"
  by (auto simp: auth_failures_def errors_def is_auth_failure_def contains_lower
      intro: filter_cong)

lemma observations_other_high_error:
  "t \<noteq> ''High Error Rate'' \<Longrightarrow>
   observations_of t (concat (map high_error_rate_issue xs)) = []"
  by (auto simp: observations_of_def filter_empty_conv dest: high_error_rate_issue_fields)

lemma observations_append:
  "observations_of t (xs @ ys) = observations_of t xs @ observations_of t ys"
  by (simp add: observations_of_def)

lemma observations_auth:
  "observations_of ''Authentication Failures'' (issues_to_insert entries)
     = auth_failures_issue entries"
  by (simp add: issues_to_insert_def observations_append observations_other_high_error)
     (simp add: observations_of_def db_timeout_issue_def slow_response_issue_def
        auth_failures_issue_def Let_def)



text \<open>
  C4. The Authentication Failures heuristic counts the ERROR records of component Auth
  whose message contains ``failed'' or ``invalid'' in any case of the letters. A batch in
  which that count is above 5 gives exactly one observation of this type, of severity HIGH
  and with the count as its occurrence count; any other batch gives none.
\<close>

theorem auth_failures_threshold:
  "observations_of ''Authentication Failures'' (issues_to_insert entries)
     = (if 5 < length (filter is_auth_failure entries)
        then [\<lparr>issue_type = ''Authentication Failures'', severity = ''HIGH'',
               description = AuthFailuresText (length (filter is_auth_failure entries)),
               component = ''Auth'',
               occurrence_count = length (filter is_auth_failure entries)\<rparr>]
        else [])"
  by (simp add: observations_auth auth_failures_issue_def auth_failures_eq Let_def)


theorem auth_failures_threshold_witness:
  "length (filter is_auth_failure
      (replicate 6 (example_entry ''ERROR'' ''Auth'' ''Login FAILED for bob''))) = 6 \<and>
   observations_of ''Authentication Failures''
      (issues_to_insert (replicate 6 (example_entry ''ERROR'' ''Auth'' ''Login FAILED for bob'')))
     = [\<lparr>issue_type = ''Authentication Failures'', severity = ''HIGH'',
         description = AuthFailuresText 6, component = ''Auth'', occurrence_count = 6\<rparr>] \<and>
   observations_of ''Authentication Failures''
      (issues_to_insert (replicate 5 (example_entry ''ERROR'' ''Auth'' ''Login FAILED for bob'')))
     = []"
proof -
  let ?e = "example_entry ''ERROR'' ''Auth'' ''Login FAILED for bob''"
  have "''Login FAILED for bob'' = ''Login '' @ ''FAILED'' @ '' for bob''" by simp
  moreover have "lower ''FAILED'' = ''failed''" by code_simp
  ultimately have "contains_ci ''Login FAILED for bob'' ''failed''"
    unfolding contains_ci_def by blast
  then have a: "is_auth_failure ?e" by (simp add: is_auth_failure_def example_entry_def)
  then have n: "length (filter is_auth_failure (replicate k ?e)) = k" for k by simp
  show ?thesis
    using auth_failures_threshold [of "replicate 6 ?e"] auth_failures_threshold [of "replicate 5 ?e"]
    by (simp add: n)
qed

text \<open>
  C3. For every batch and every component, the observations of type High Error Rate for
  that component are: none when the ERROR records of the component are not more than 10
  percent of its records, and otherwise exactly one, whose occurrence count is the number
  of ERROR records of the component and whose severity is HIGH when they are more than 20
  percent of its records and MEDIUM when they are not. The comparisons of counts are the
  comparisons of the error rate with 10 and 20. Among 100 records of a component, 10 ERROR
  records give no observation, 11 give one of severity MEDIUM and 21 give one of severity
  HIGH.
\<close>

theorem high_error_rate_threshold:
  "filter (\<lambda>i. issue.component i = c)
      (observations_of ''High Error Rate'' (issues_to_insert entries))
     = (if 10 * total_count_of c entries < 100 * error_count_of c entries
        then [\<lparr>issue_type = ''High Error Rate'',
               severity = (if 20 * total_count_of c entries < 100 * error_count_of c entries
                           then ''HIGH'' else ''MEDIUM''),
               description = HighErrorRateText c
                 (error_rate (error_count_of c entries) (total_count_of c entries))
                 (error_count_of c entries) (total_count_of c entries),
               component = c,
               occurrence_count = error_count_of c entries\<rparr>]
        else []) \<and>
   (0 < total_count_of c entries \<longrightarrow>
      (10 * total_count_of c entries < 100 * error_count_of c entries)
        = (10 < error_rate (error_count_of c entries) (total_count_of c entries)) \<and>
      (20 * total_count_of c entries < 100 * error_count_of c entries)
        = (20 < error_rate (error_count_of c entries) (total_count_of c entries))) \<and>
   (total_count_of c entries = 100 \<and> error_count_of c entries = 10 \<longrightarrow>
      filter (\<lambda>i. issue.component i = c)
        (observations_of ''High Error Rate'' (issues_to_insert entries)) = []) \<and>
   (total_count_of c entries = 100 \<and> error_count_of c entries = 11 \<longrightarrow>
      map severity (filter (\<lambda>i. issue.component i = c)
        (observations_of ''High Error Rate'' (issues_to_insert entries))) = [''MEDIUM'']) \<and>
   (total_count_of c entries = 100 \<and> error_count_of c entries = 21 \<longrightarrow>
      map severity (filter (\<lambda>i. issue.component i = c)
        (observations_of ''High Error Rate'' (issues_to_insert entries))) = [''HIGH''])"
proof -
  have r: "0 < tc \<Longrightarrow> (10 * tc < 100 * ec) = (10 < error_rate ec tc) \<and>
                        (20 * tc < 100 * ec) = (20 < error_rate ec tc)" for tc ec
    using error_rate_gt [where tc = tc and ec = ec and k = 10]
      error_rate_gt [where tc = tc and ec = ec and k = 20] by simp
  show ?thesis
    using r [of "total_count_of c entries" "error_count_of c entries"]
    by (simp add: high_error_rate_for)
qed

theorem high_error_rate_threshold_witness:
  "total_count_of ''X'' (replicate 11 (example_entry ''ERROR'' ''X'' ''boom'') @
                         replicate 89 (example_entry ''INFO'' ''X'' ''fine'')) = 100 \<and>
   error_count_of ''X'' (replicate 11 (example_entry ''ERROR'' ''X'' ''boom'') @
                         replicate 89 (example_entry ''INFO'' ''X'' ''fine'')) = 11 \<and>
   map severity (filter (\<lambda>i. issue.component i = ''X'')
     (observations_of ''High Error Rate''
        (issues_to_insert (replicate 11 (example_entry ''ERROR'' ''X'' ''boom'') @
                           replicate 89 (example_entry ''INFO'' ''X'' ''fine''))))) = [''MEDIUM'']"
proof -
  let ?es = "replicate 11 (example_entry ''ERROR'' ''X'' ''boom'') @
             replicate 89 (example_entry ''INFO'' ''X'' ''fine'')"
  have t: "total_count_of ''X'' ?es = 100"
    by (simp add: total_count_of_def example_entry_def)
  have e: "error_count_of ''X'' ?es = 11"
    by (simp add: error_count_of_def example_entry_def)
  show ?thesis
    using high_error_rate_threshold [of "''X''" ?es] t e by simp
qed







end
